theory Spec2Isabelle
  imports Main "HOL-Library.Mapping" "HOL-Library.AList_Mapping"
begin

section \<open>The file system the store talks to\<close>

text \<open>
  The write-ahead log lives in a file. A file system is the contents of the files that
  exist, together with the answers of the operating system to the two ways the store
  opens a file: \<^verbatim>\<open>std::ofstream(path, std::ios::app)\<close> and \<^verbatim>\<open>std::ifstream(path)\<close>.
\<close>

record filesys =
  contents :: "string \<rightharpoonup> string"
  append_ok :: "string \<Rightarrow> bool"
  read_ok :: "string \<Rightarrow> bool"

text \<open>Opening for append creates a missing file and never truncates an existing one.\<close>

definition open_append :: "string \<Rightarrow> filesys \<Rightarrow> bool \<times> filesys" where
  "open_append p fs =
     (if append_ok fs p
      then (True, (case contents fs p of
                     None \<Rightarrow> fs\<lparr>contents := (contents fs)(p \<mapsto> [])\<rparr>
                   | Some old \<Rightarrow> fs))
      else (False, fs))"

text \<open>Opening for reading fails on a missing file; otherwise the stream yields the contents.\<close>

definition open_read :: "string \<Rightarrow> filesys \<Rightarrow> string option" where
  "open_read p fs = (if read_ok fs p then contents fs p else None)"

definition append_file :: "string \<Rightarrow> string \<Rightarrow> filesys \<Rightarrow> filesys" where
  "append_file p txt fs =
     fs\<lparr>contents := (contents fs)(p \<mapsto> (case contents fs p of None \<Rightarrow> txt | Some old \<Rightarrow> old @ txt))\<rparr>"

section \<open>The store\<close>

text \<open>
  The fields of \<^verbatim>\<open>class KVStore\<close> (written without the trailing underscore of the source).
  \<^verbatim>\<open>cache_\<close> is an \<^verbatim>\<open>unordered_map\<close> from a key to a \<^verbatim>\<open>CacheEntry\<close>; the entry's
  \<^verbatim>\<open>lru_iter\<close> is only ever set to the list node that was just pushed for that same key, so
  the entry is modelled by its value and \<^verbatim>\<open>lru_list_.erase(it->second.lru_iter)\<close> by the removal
  of the node holding the key. \<^verbatim>\<open>lru_list_\<close> has the most recently used key at its head.
  \<^verbatim>\<open>wal_file_\<close> is true when the output stream is present and open. The mutex is not a
  field of the sequential model.
\<close>

record kvstore =
  cache :: "(string, string) mapping"
  lru_list :: "string list"
  max_capacity :: nat
  wal_path :: string
  wal_file :: bool

type_synonym world = "kvstore \<times> filesys"

definition KVStore :: "nat \<Rightarrow> string \<Rightarrow> filesys \<Rightarrow> world" where
  "KVStore cap path fs =
     (if path \<noteq> []
      then (let (ok, fs') = open_append path fs
            in (\<lparr>cache = Mapping.empty, lru_list = [], max_capacity = cap,
                 wal_path = path, wal_file = ok\<rparr>, fs'))
      else (\<lparr>cache = Mapping.empty, lru_list = [], max_capacity = cap,
             wal_path = path, wal_file = False\<rparr>, fs))"

definition newline :: char where
  "newline = CHR 0x0A"

definition write_wal :: "string \<Rightarrow> string \<Rightarrow> string \<Rightarrow> world \<Rightarrow> world" where
  "write_wal operation key val w =
     (let (s, fs) = w in
      if \<not> wal_file s then w
      else (s, append_file (wal_path s)
                 (operation @ '' '' @ key @ (if val \<noteq> [] then '' '' @ val else []) @ [newline]) fs))"

definition evict_lru :: "kvstore \<Rightarrow> kvstore" where
  "evict_lru s =
     (if lru_list s = [] then s
      else s\<lparr>cache := Mapping.delete (last (lru_list s)) (cache s), lru_list := butlast (lru_list s)\<rparr>)"

definition put :: "string \<Rightarrow> string \<Rightarrow> world \<Rightarrow> bool \<times> world" where
  "put key val w =
     (let (s, fs) = w;
          s' = (if Mapping.lookup (cache s) key \<noteq> None
                then s\<lparr>cache := Mapping.update key val (cache s),
                       lru_list := key # remove1 key (lru_list s)\<rparr>
                else (let s1 = (if Mapping.size (cache s) \<ge> max_capacity s then evict_lru s else s)
                      in s1\<lparr>lru_list := key # lru_list s1, cache := Mapping.update key val (cache s1)\<rparr>))
      in (True, write_wal ''PUT'' key val (s', fs)))"

definition get :: "string \<Rightarrow> world \<Rightarrow> string option \<times> world" where
  "get key w =
     (let (s, fs) = w in
      case Mapping.lookup (cache s) key of
        None \<Rightarrow> (None, w)
      | Some v \<Rightarrow> (Some v, (s\<lparr>lru_list := key # remove1 key (lru_list s)\<rparr>, fs)))"

definition del :: "string \<Rightarrow> world \<Rightarrow> bool \<times> world" where
  "del key w =
     (let (s, fs) = w in
      if Mapping.lookup (cache s) key = None then (False, w)
      else (True, write_wal ''DEL'' key []
                    (s\<lparr>lru_list := remove1 key (lru_list s), cache := Mapping.delete key (cache s)\<rparr>, fs)))"

definition exists :: "string \<Rightarrow> world \<Rightarrow> bool \<times> world" where
  "exists key w = (Mapping.lookup (cache (fst w)) key \<noteq> None, w)"

definition size_op :: "world \<Rightarrow> nat \<times> world" where
  "size_op w = (Mapping.size (cache (fst w)), w)"

definition clear :: "world \<Rightarrow> world" where
  "clear w = (let (s, fs) = w in write_wal ''CLEAR'' [] [] (s\<lparr>cache := Mapping.empty, lru_list := []\<rparr>, fs))"

subsection \<open>Reading the log back\<close>

text \<open>The white space that \<^verbatim>\<open>operator>>\<close> skips and stops at (the classic locale).\<close>

definition isspace :: "char \<Rightarrow> bool" where
  "isspace c = (c = CHR '' '' \<or> c = CHR 0x09 \<or> c = CHR 0x0A \<or> c = CHR 0x0B \<or> c = CHR 0x0C \<or> c = CHR 0x0D)"

text \<open>
  \<^verbatim>\<open>iss >> token\<close>: skip leading white space, then take characters up to the next white space
  or the end. It fails when nothing is left; the second component is the unread rest.
\<close>

definition read_token :: "string \<Rightarrow> (string \<times> string) option" where
  "read_token inp =
     (let s = dropWhile isspace inp
      in if s = [] then None
         else Some (takeWhile (\<lambda>c. \<not> isspace c) s, dropWhile (\<lambda>c. \<not> isspace c) s))"

text \<open>
  \<^verbatim>\<open>std::getline(iss, value)\<close> into the empty \<^verbatim>\<open>value\<close>: everything up to a newline. At
  the end of the stream it fails and leaves \<^verbatim>\<open>value\<close> empty, which is the same result.
\<close>

definition getline_rest :: "string \<Rightarrow> string" where
  "getline_rest inp = takeWhile (\<lambda>c. c \<noteq> newline) inp"

text \<open>
  The lines that the loop \<^verbatim>\<open>while (std::getline(wal_in, line))\<close> sees: a last line without
  a newline counts when it is not empty.
\<close>

fun getlines_acc :: "string \<Rightarrow> string \<Rightarrow> string list" where
  "getlines_acc acc [] = (if acc = [] then [] else [acc])"
| "getlines_acc acc (c # cs) =
     (if c = newline then acc # getlines_acc [] cs else getlines_acc (acc @ [c]) cs)"

definition getlines :: "string \<Rightarrow> string list" where
  "getlines txt = getlines_acc [] txt"

text \<open>The body of the replay loop for one line.\<close>

definition replay_line :: "string \<Rightarrow> world \<Rightarrow> world" where
  "replay_line line w =
     (case read_token line of
        None \<Rightarrow> w
      | Some (op, r1) \<Rightarrow>
          if op = ''PUT'' then
            (case read_token r1 of
               None \<Rightarrow> w
             | Some (key, r2) \<Rightarrow>
                 (let v0 = getline_rest r2;
                      v = (if v0 \<noteq> [] \<and> hd v0 = CHR '' '' then tl v0 else v0)
                  in snd (put key v w)))
          else if op = ''DEL'' then
            (case read_token r1 of
               None \<Rightarrow> w
             | Some (key, r2) \<Rightarrow> snd (del key w))
          else if op = ''CLEAR'' then clear w
          else w)"

fun replay :: "string list \<Rightarrow> world \<Rightarrow> world" where
  "replay [] w = w"
| "replay (l # ls) w = replay ls (replay_line l w)"

definition recover :: "world \<Rightarrow> bool \<times> world" where
  "recover w =
     (let (s, fs) = w in
      if wal_path s = [] then (False, w)
      else (case open_read (wal_path s) fs of
              None \<Rightarrow> (False, w)
            | Some txt \<Rightarrow>
                (let temp_wal = wal_file s;
                     (s', fs') = replay (getlines txt) (s\<lparr>wal_file := False\<rparr>, fs)
                 in (True, (s'\<lparr>wal_file := temp_wal\<rparr>, fs')))))"

subsection \<open>Calls of the public interface\<close>

datatype call = Put string string | Get string | Del string | Exists string | Size | Clear | Recover

fun exec :: "call \<Rightarrow> world \<Rightarrow> world" where
  "exec (Put k v) w = snd (put k v w)"
| "exec (Get k) w = snd (get k w)"
| "exec (Del k) w = snd (del k w)"
| "exec (Exists k) w = snd (exists k w)"
| "exec Size w = snd (size_op w)"
| "exec Clear w = clear w"
| "exec Recover w = snd (recover w)"

fun run :: "call list \<Rightarrow> world \<Rightarrow> world" where
  "run [] w = w"
| "run (c # cs) w = run cs (exec c w)"

subsection \<open>Invariants and example data\<close>

text \<open>Index and recency list hold the same keys, each once.\<close>

definition consistent :: "kvstore \<Rightarrow> bool" where
  "consistent s \<longleftrightarrow> distinct (lru_list s) \<and> set (lru_list s) = Mapping.keys (cache s)"

text \<open>The entry count respects the bound given at construction.\<close>

definition within_capacity :: "kvstore \<Rightarrow> bool" where
  "within_capacity s \<longleftrightarrow> Mapping.size (cache s) \<le> max_capacity s"

text \<open>An empty disk on which every open succeeds.\<close>

definition disk0 :: filesys where
  "disk0 = \<lparr>contents = Map.empty, append_ok = (\<lambda>p. True), read_ok = (\<lambda>p. True)\<rparr>"

subsection \<open>Log records\<close>

text \<open>
  Keys and values that the line format carries: a key is one non-empty token without white
  space, a value has no newline.
\<close>

definition wf_key :: "string \<Rightarrow> bool" where
  "wf_key k \<longleftrightarrow> k \<noteq> [] \<and> list_all (\<lambda>c. \<not> isspace c) k"

definition wf_value :: "string \<Rightarrow> bool" where
  "wf_value v \<longleftrightarrow> newline \<notin> set v"

fun wf_call :: "call \<Rightarrow> bool" where
  "wf_call (Put k v) = (wf_key k \<and> wf_value v)"
| "wf_call (Del k) = wf_key k"
| "wf_call Clear = True"
| "wf_call c = False"

text \<open>
  The record layout as the specification gives it: one record per line, the fields separated
  by a single space, \<^verbatim>\<open>PUT <key> <value...>\<close> with the value the rest of the line,
  \<^verbatim>\<open>DEL <key>\<close>, and \<^verbatim>\<open>CLEAR\<close>. The two forms in which \<^verbatim>\<open>write_wal\<close> departs from it are
  records as well: a \<^verbatim>\<open>PUT\<close> of an empty value has no value field, and \<^verbatim>\<open>CLEAR\<close> is followed
  by one space. A line is malformed when it is no record.
\<close>

definition record_layout :: "string \<Rightarrow> bool" where
  "record_layout line \<longleftrightarrow>
     (take 4 line = ''PUT '' \<and> wf_key (takeWhile (\<lambda>c. c \<noteq> CHR '' '') (drop 4 line)))
   \<or> (take 4 line = ''DEL '' \<and> wf_key (drop 4 line))
   \<or> line = ''CLEAR'' \<or> line = ''CLEAR ''"

definition malformed :: "string \<Rightarrow> bool" where
  "malformed line \<longleftrightarrow> \<not> record_layout line"

text \<open>The tokens of a line: its maximal runs of characters that are not white space.\<close>

fun tokens_acc :: "string \<Rightarrow> string \<Rightarrow> string list" where
  "tokens_acc acc [] = (if acc = [] then [] else [acc])"
| "tokens_acc acc (c # cs) =
     (if isspace c then (if acc = [] then tokens_acc [] cs else acc # tokens_acc [] cs)
      else tokens_acc (acc @ [c]) cs)"

definition tokens :: "string \<Rightarrow> string list" where
  "tokens line = tokens_acc [] line"

text \<open>
  A line that names no operation: it has no token, or its first token is none of the three
  operation names, or it is \<^verbatim>\<open>PUT\<close> or \<^verbatim>\<open>DEL\<close> with no second token for the key.
\<close>

definition unreadable :: "string \<Rightarrow> bool" where
  "unreadable line =
     (case tokens line of
        [] \<Rightarrow> True
      | op # rest \<Rightarrow>
          if op = ''PUT'' \<or> op = ''DEL'' then rest = []
          else op \<noteq> ''CLEAR'')"

text \<open>The line that \<^verbatim>\<open>write_wal\<close> writes for a mutating call, and the text of a list of them.\<close>

fun wal_line :: "call \<Rightarrow> string" where
  "wal_line (Put k v) = ''PUT'' @ '' '' @ k @ (if v \<noteq> [] then '' '' @ v else [])"
| "wal_line (Del k) = ''DEL'' @ '' '' @ k"
| "wal_line Clear = ''CLEAR'' @ '' ''"
| "wal_line c = []"

definition wal_text :: "call list \<Rightarrow> string" where
  "wal_text cs = concat (map (\<lambda>c. wal_line c @ [newline]) cs)"

text \<open>Disks that hold a log already: writable, read-only, and with damaged lines.\<close>

definition disk1 :: filesys where
  "disk1 = \<lparr>contents = [''wal'' \<mapsto> ''PUT a 1'' @ [newline]], append_ok = (\<lambda>p. True), read_ok = (\<lambda>p. True)\<rparr>"

definition disk2 :: filesys where
  "disk2 = \<lparr>contents = [''wal'' \<mapsto> ''PUT a 1'' @ [newline]], append_ok = (\<lambda>p. False), read_ok = (\<lambda>p. True)\<rparr>"

definition disk3 :: filesys where
  "disk3 = \<lparr>contents = [''wal'' \<mapsto> ''PUT a 1'' @ [newline] @ ''PUT'' @ [newline] @ ''BOGUS x'' @ [newline]
                           @ [newline] @ ''DEL'' @ [newline] @ ''PUT b 2'' @ [newline]],
            append_ok = (\<lambda>p. True), read_ok = (\<lambda>p. True)\<rparr>"

text \<open>A disk whose log holds the given text; every open succeeds.\<close>

definition disk_with :: "string \<Rightarrow> filesys" where
  "disk_with log = \<lparr>contents = [''wal'' \<mapsto> log], append_ok = (\<lambda>p. True), read_ok = (\<lambda>p. True)\<rparr>"

subsection \<open>Calls of several threads\<close>

text \<open>
  Each of \<^verbatim>\<open>put\<close>, \<^verbatim>\<open>get\<close>, \<^verbatim>\<open>del\<close>, \<^verbatim>\<open>exists\<close>, \<^verbatim>\<open>size\<close> and \<^verbatim>\<open>clear\<close> declares a
  \<^verbatim>\<open>std::lock_guard\<close> on the mutex as its first statement and holds it until it returns, so
  among the calls of several threads each of them is one indivisible step on the world,
  which is what \<open>exec\<close> is. \<^verbatim>\<open>recover\<close> declares no guard. Its body is three parts: up to
  \<^verbatim>\<open>auto temp_wal = std::move(wal_file_)\<close> it tests the path, opens the file and takes the
  output stream away, without the mutex; then each line of the loop calls \<^verbatim>\<open>put\<close>,
  \<^verbatim>\<open>del\<close> or \<^verbatim>\<open>clear\<close>, which lock for themselves; at last
  \<^verbatim>\<open>wal_file_ = std::move(temp_wal)\<close> puts the stream back, again without the mutex.
\<close>

definition recover_begin :: "world \<Rightarrow> (bool \<times> string list \<times> world) option" where
  "recover_begin w =
     (let (s, fs) = w in
      if wal_path s = [] then None
      else (case open_read (wal_path s) fs of
              None \<Rightarrow> None
            | Some log \<Rightarrow> Some (wal_file s, getlines log, (s\<lparr>wal_file := False\<rparr>, fs))))"

definition recover_end :: "bool \<Rightarrow> world \<Rightarrow> world" where
  "recover_end temp_wal w = (let (s, fs) = w in (s\<lparr>wal_file := temp_wal\<rparr>, fs))"

text \<open>
  \<^verbatim>\<open>recover\<close> in one thread while other threads make the calls \<open>others\<close>, scheduled after
  the first part and before the loop. No lock excludes this schedule.
\<close>

definition recover_racing :: "call list \<Rightarrow> world \<Rightarrow> bool \<times> world" where
  "recover_racing others w =
     (case recover_begin w of
        None \<Rightarrow> (False, w)
      | Some (temp_wal, ls, w') \<Rightarrow> (True, recover_end temp_wal (replay ls (run others w'))))"

section \<open>Preservation of the invariants\<close>

lemma fst_write_wal [simp]: "fst (write_wal operation k v w) = fst w"
  by (simp add: write_wal_def split: prod.splits)

lemma lookup_None_keys: "Mapping.lookup m k = None \<longleftrightarrow> k \<notin> Mapping.keys m"
  by (auto simp: keys_dom_lookup)

lemma size_consistent: "consistent s \<Longrightarrow> Mapping.size (cache s) = length (lru_list s)"
  by (simp add: Mapping.size_def consistent_def distinct_card [symmetric])

lemma evict_lru_consistent: "consistent s \<Longrightarrow> consistent (evict_lru s)"
proof -
  assume c: "consistent s"
  show ?thesis
  proof (cases "lru_list s = []")
    case True
    with c show ?thesis by (simp add: evict_lru_def)
  next
    case False
    then obtain xs x where xs: "lru_list s = xs @ [x]"
      by (metis append_butlast_last_id)
    with c show ?thesis
      by (auto simp: evict_lru_def consistent_def)
  qed
qed

lemma evict_lru_size:
  "consistent s \<Longrightarrow> lru_list s \<noteq> [] \<Longrightarrow> Mapping.size (cache (evict_lru s)) = Mapping.size (cache s) - 1"
  using evict_lru_consistent [of s]
  by (simp add: size_consistent) (simp add: evict_lru_def)

lemma evict_lru_keys: "Mapping.keys (cache (evict_lru s)) \<subseteq> Mapping.keys (cache s)"
  by (auto simp: evict_lru_def)

lemma evict_lru_fields [simp]:
  "max_capacity (evict_lru s) = max_capacity s"
  "wal_path (evict_lru s) = wal_path s"
  "wal_file (evict_lru s) = wal_file s"
  by (simp_all add: evict_lru_def)

lemma put_consistent: "consistent (fst w) \<Longrightarrow> consistent (fst (snd (put k v w)))"
proof -
  assume c: "consistent (fst w)"
  obtain s fs where w: "w = (s, fs)" by (cases w)
  show ?thesis
  proof (cases "Mapping.lookup (cache s) k = None")
    case True
    define s1 where "s1 = (if Mapping.size (cache s) \<ge> max_capacity s then evict_lru s else s)"
    have c1: "consistent s1" using c w by (simp add: s1_def evict_lru_consistent)
    have "k \<notin> Mapping.keys (cache s1)"
      using True evict_lru_keys [of s] by (auto simp: s1_def lookup_None_keys)
    with c1 have "consistent (s1\<lparr>lru_list := k # lru_list s1, cache := Mapping.update k v (cache s1)\<rparr>)"
      by (auto simp: consistent_def)
    with True w show ?thesis by (simp add: put_def s1_def Let_def)
  next
    case False
    then have "k \<in> set (lru_list s)" using c w by (simp add: consistent_def lookup_None_keys)
    with c w False show ?thesis
      by (auto simp: put_def consistent_def)
  qed
qed

lemma put_within_capacity:
  assumes "consistent (fst w)" "within_capacity (fst w)" "0 < max_capacity (fst w)"
  shows "within_capacity (fst (snd (put k v w)))"
proof -
  obtain s fs where w: "w = (s, fs)" by (cases w)
  have c: "consistent s" and b: "Mapping.size (cache s) \<le> max_capacity s" and p: "0 < max_capacity s"
    using assms w by (simp_all add: within_capacity_def)
  have fin: "finite (Mapping.keys (cache s))" using c by (metis consistent_def List.finite_set)
  show ?thesis
  proof (cases "Mapping.lookup (cache s) k = None")
    case True
    note absent = this
    have knot: "k \<notin> Mapping.keys (cache s)" using True by (simp add: lookup_None_keys)
    show ?thesis
    proof (cases "Mapping.size (cache s) \<ge> max_capacity s")
      case True
      then have ne: "lru_list s \<noteq> []" using p c by (auto simp: size_consistent)
      have ce: "consistent (evict_lru s)" using c by (rule evict_lru_consistent)
      have ke: "k \<notin> Mapping.keys (cache (evict_lru s))" using knot evict_lru_keys [of s] by auto
      have "Mapping.size (Mapping.update k v (cache (evict_lru s))) = Suc (Mapping.size (cache (evict_lru s)))"
        using ke ce by (metis size_update consistent_def List.finite_set add.commute plus_1_eq_Suc)
      also have "\<dots> = Mapping.size (cache s)"
        using evict_lru_size [OF c ne] ne c by (simp add: size_consistent)
      finally show ?thesis using absent True b w
        by (simp add: put_def within_capacity_def Let_def)
    next
      case False
      have "Mapping.size (Mapping.update k v (cache s)) = Suc (Mapping.size (cache s))"
        using knot fin by (simp add: size_update)
      then show ?thesis using absent False w
        by (simp add: put_def within_capacity_def Let_def)
    qed
  next
    case False
    then have "k \<in> Mapping.keys (cache s)" by (simp add: lookup_None_keys)
    then have "Mapping.size (Mapping.update k v (cache s)) = Mapping.size (cache s)"
      using fin by (simp add: size_update)
    then show ?thesis using False b w
      by (simp add: put_def within_capacity_def)
  qed
qed

lemma put_max_capacity [simp]: "max_capacity (fst (snd (put k v w))) = max_capacity (fst w)"
  by (cases w) (simp add: put_def Let_def)

lemma get_consistent: "consistent (fst w) \<Longrightarrow> consistent (fst (snd (get k w)))"
  by (cases w) (auto simp: get_def consistent_def keys_dom_lookup split: option.splits)

lemma get_cache [simp]: "cache (fst (snd (get k w))) = cache (fst w)"
  by (cases w) (simp add: get_def split: option.splits)

lemma get_max_capacity [simp]: "max_capacity (fst (snd (get k w))) = max_capacity (fst w)"
  by (cases w) (simp add: get_def split: option.splits)

lemma get_within_capacity:
  "within_capacity (fst w) \<Longrightarrow> within_capacity (fst (snd (get k w)))"
  by (simp add: within_capacity_def)

lemma del_consistent: "consistent (fst w) \<Longrightarrow> consistent (fst (snd (del k w)))"
  by (cases w) (auto simp: del_def consistent_def)

lemma del_within_capacity:
  "within_capacity (fst w) \<Longrightarrow> within_capacity (fst (snd (del k w)))"
  by (cases w) (auto simp: del_def within_capacity_def size_delete)

lemma del_max_capacity [simp]: "max_capacity (fst (snd (del k w))) = max_capacity (fst w)"
  by (cases w) (simp add: del_def)

lemma clear_consistent: "consistent (fst (clear w))"
  by (cases w) (simp add: clear_def consistent_def)

lemma clear_within_capacity: "within_capacity (fst (clear w))"
  by (cases w) (simp add: clear_def within_capacity_def)

lemma clear_max_capacity [simp]: "max_capacity (fst (clear w)) = max_capacity (fst w)"
  by (cases w) (simp add: clear_def)

lemma replay_line_consistent: "consistent (fst w) \<Longrightarrow> consistent (fst (replay_line l w))"
  by (auto simp: replay_line_def Let_def put_consistent del_consistent clear_consistent
           split: option.splits)

lemma replay_line_max_capacity [simp]: "max_capacity (fst (replay_line l w)) = max_capacity (fst w)"
  by (auto simp: replay_line_def Let_def split: option.splits)

lemma replay_line_within_capacity:
  "consistent (fst w) \<Longrightarrow> within_capacity (fst w) \<Longrightarrow> 0 < max_capacity (fst w)
   \<Longrightarrow> within_capacity (fst (replay_line l w))"
  by (auto simp: replay_line_def Let_def put_within_capacity del_within_capacity
                 clear_within_capacity split: option.splits)

lemma replay_consistent: "consistent (fst w) \<Longrightarrow> consistent (fst (replay ls w))"
  by (induction ls arbitrary: w) (simp_all add: replay_line_consistent)

lemma replay_max_capacity [simp]: "max_capacity (fst (replay ls w)) = max_capacity (fst w)"
  by (induction ls arbitrary: w) simp_all

lemma replay_within_capacity:
  "consistent (fst w) \<Longrightarrow> within_capacity (fst w) \<Longrightarrow> 0 < max_capacity (fst w)
   \<Longrightarrow> within_capacity (fst (replay ls w))"
  by (induction ls arbitrary: w)
     (simp_all add: replay_line_consistent replay_line_within_capacity)

lemma consistent_wal_file [simp]: "consistent (s\<lparr>wal_file := b\<rparr>) = consistent s"
  by (simp add: consistent_def)

lemma within_capacity_wal_file [simp]: "within_capacity (s\<lparr>wal_file := b\<rparr>) = within_capacity s"
  by (simp add: within_capacity_def)

lemma recover_fail:
  "wal_path s = [] \<or> open_read (wal_path s) fs = None \<Longrightarrow> recover (s, fs) = (False, (s, fs))"
  by (auto simp: recover_def)

lemma recover_success:
  "wal_path s \<noteq> [] \<Longrightarrow> open_read (wal_path s) fs = Some log \<Longrightarrow>
   recover (s, fs) =
     (True, ((fst (replay (getlines log) (s\<lparr>wal_file := False\<rparr>, fs)))\<lparr>wal_file := wal_file s\<rparr>,
             snd (replay (getlines log) (s\<lparr>wal_file := False\<rparr>, fs))))"
  by (simp add: recover_def case_prod_beta)

lemma recover_consistent: "consistent (fst w) \<Longrightarrow> consistent (fst (snd (recover w)))"
proof -
  assume c: "consistent (fst w)"
  obtain s fs where w: "w = (s, fs)" by (cases w)
  show ?thesis
  proof (cases "wal_path s = [] \<or> open_read (wal_path s) fs = None")
    case True
    with c w show ?thesis by (simp add: recover_fail)
  next
    case False
    then obtain log where log: "open_read (wal_path s) fs = Some log" by auto
    have "consistent (fst (replay (getlines log) (s\<lparr>wal_file := False\<rparr>, fs)))"
      using c w by (intro replay_consistent) simp
    with False log w show ?thesis
      by (simp add: recover_success)
  qed
qed

lemma recover_max_capacity [simp]: "max_capacity (fst (snd (recover w))) = max_capacity (fst w)"
proof -
  obtain s fs where w: "w = (s, fs)" by (cases w)
  show ?thesis
  proof (cases "wal_path s = [] \<or> open_read (wal_path s) fs = None")
    case True
    with w show ?thesis by (simp add: recover_fail)
  next
    case False
    then obtain log where "open_read (wal_path s) fs = Some log" by auto
    with False w show ?thesis by (simp add: recover_success)
  qed
qed

lemma recover_within_capacity:
  assumes "consistent (fst w)" "within_capacity (fst w)" "0 < max_capacity (fst w)"
  shows "within_capacity (fst (snd (recover w)))"
proof -
  obtain s fs where w: "w = (s, fs)" by (cases w)
  show ?thesis
  proof (cases "wal_path s = [] \<or> open_read (wal_path s) fs = None")
    case True
    with assms w show ?thesis by (simp add: recover_fail)
  next
    case False
    then obtain log where log: "open_read (wal_path s) fs = Some log" by auto
    have "within_capacity (fst (replay (getlines log) (s\<lparr>wal_file := False\<rparr>, fs)))"
      using assms w by (intro replay_within_capacity) simp_all
    with False log w show ?thesis
      by (simp add: recover_success)
  qed
qed

lemma exec_max_capacity [simp]: "max_capacity (fst (exec c w)) = max_capacity (fst w)"
  by (cases c) (simp_all add: exists_def size_op_def)

lemma exec_consistent: "consistent (fst w) \<Longrightarrow> consistent (fst (exec c w))"
  by (cases c)
     (simp_all add: put_consistent get_consistent del_consistent clear_consistent
                    recover_consistent exists_def size_op_def)

lemma exec_within_capacity:
  "consistent (fst w) \<Longrightarrow> within_capacity (fst w) \<Longrightarrow> 0 < max_capacity (fst w)
   \<Longrightarrow> within_capacity (fst (exec c w))"
  by (cases c)
     (simp_all add: put_within_capacity get_within_capacity del_within_capacity
                    clear_within_capacity recover_within_capacity exists_def size_op_def)

lemma run_consistent: "consistent (fst w) \<Longrightarrow> consistent (fst (run cs w))"
  by (induction cs arbitrary: w) (simp_all add: exec_consistent)

lemma run_max_capacity [simp]: "max_capacity (fst (run cs w)) = max_capacity (fst w)"
  by (induction cs arbitrary: w) simp_all

lemma run_within_capacity:
  "consistent (fst w) \<Longrightarrow> within_capacity (fst w) \<Longrightarrow> 0 < max_capacity (fst w)
   \<Longrightarrow> within_capacity (fst (run cs w))"
  by (induction cs arbitrary: w) (simp_all add: exec_consistent exec_within_capacity)

lemma KVStore_fields [simp]:
  "cache (fst (KVStore cap path fs)) = Mapping.empty"
  "lru_list (fst (KVStore cap path fs)) = []"
  "max_capacity (fst (KVStore cap path fs)) = cap"
  "wal_path (fst (KVStore cap path fs)) = path"
  by (simp_all add: KVStore_def split: prod.splits)

lemma KVStore_consistent: "consistent (fst (KVStore cap path fs))"
  by (simp add: consistent_def)

lemma KVStore_within_capacity: "within_capacity (fst (KVStore cap path fs))"
  by (simp add: within_capacity_def)

section \<open>The cache operations\<close>

text \<open>
  C1. For a store constructed with a positive capacity, after any sequence of calls of the
  public interface the keys of the index are the keys of the recency list, the list has
  no duplicates, its length is what \<^verbatim>\<open>size()\<close> returns, and that is at most the capacity.
  Every prefix of a sequence of calls is a sequence of calls, so this holds after each call.
\<close>

theorem capacity_invariant:
  assumes "0 < cap"
  shows "let (s, fs') = run cs (KVStore cap path fs) in
           Mapping.keys (cache s) = set (lru_list s)
         \<and> distinct (lru_list s)
         \<and> length (lru_list s) = fst (size_op (s, fs'))
         \<and> fst (size_op (s, fs')) \<le> cap"
proof -
  let ?w = "run cs (KVStore cap path fs)"
  have c: "consistent (fst ?w)"
    by (intro run_consistent KVStore_consistent)
  have b: "within_capacity (fst ?w)"
    using assms by (intro run_within_capacity KVStore_consistent KVStore_within_capacity) simp
  have m: "max_capacity (fst ?w) = cap" by simp
  show ?thesis
    using c b m size_consistent [OF c]
    by (simp add: consistent_def within_capacity_def size_op_def case_prod_beta)
qed

theorem capacity_invariant_witness:
  "0 < (2::nat) \<and>
   (let (s, fs') = run [Put ''a'' ''1'', Put ''b'' ''2'', Get ''a'', Put ''c'' ''3'', Del ''a'',
                        Exists ''c'', Size, Put ''d'' ''4'', Put ''e'' ''5''] (KVStore 2 ''wal'' disk0) in
           Mapping.keys (cache s) = set (lru_list s)
         \<and> distinct (lru_list s)
         \<and> length (lru_list s) = fst (size_op (s, fs'))
         \<and> fst (size_op (s, fs')) \<le> 2)"
  using capacity_invariant [of 2 "[Put ''a'' ''1'', Put ''b'' ''2'', Get ''a'', Put ''c'' ''3'', Del ''a'',
                        Exists ''c'', Size, Put ''d'' ''4'', Put ''e'' ''5'']" "''wal''" disk0]
  by simp

subsection \<open>Facts about single operations\<close>

lemma put_returns_true [simp]: "fst (put k v w) = True"
  by (cases w) (simp add: put_def Let_def)

lemma put_lookup_same [simp]: "Mapping.lookup (cache (fst (snd (put k v w)))) k = Some v"
  by (cases w) (simp add: put_def Let_def)

lemma get_present: "Mapping.lookup (cache (fst w)) k = Some v \<Longrightarrow> fst (get k w) = Some v"
  by (cases w) (simp add: get_def)

lemmas eval_defs = KVStore_def open_append_def open_read_def append_file_def disk0_def put_def get_def del_def
  clear_def exists_def size_op_def write_wal_def evict_lru_def Let_def newline_def

lemmas replay_defs = recover_def replay_line_def read_token_def isspace_def getline_rest_def getlines_def

lemma put_store_absent:
  assumes "Mapping.lookup (cache (fst w)) k = None"
    and "Mapping.size (cache (fst w)) < max_capacity (fst w)"
  shows "lru_list (fst (snd (put k v w))) = k # lru_list (fst w)"
    and "cache (fst (snd (put k v w))) = Mapping.update k v (cache (fst w))"
  using assms by (cases w; simp add: put_def Let_def)+

lemma put_store_evict:
  assumes "Mapping.lookup (cache (fst w)) k = None"
    and "max_capacity (fst w) \<le> Mapping.size (cache (fst w))"
    and "lru_list (fst w) \<noteq> []"
  shows "lru_list (fst (snd (put k v w))) = k # butlast (lru_list (fst w))"
    and "cache (fst (snd (put k v w))) =
           Mapping.update k v (Mapping.delete (last (lru_list (fst w))) (cache (fst w)))"
  using assms by (cases w; simp add: put_def Let_def evict_lru_def)+

lemma get_store_present:
  assumes "Mapping.lookup (cache (fst w)) k = Some v"
  shows "lru_list (fst (snd (get k w))) = k # remove1 k (lru_list (fst w))"
    and "fst (get k w) = Some v"
  using assms by (cases w; simp add: get_def)+

text \<open>The recency scenario, step by step, for any four different keys.\<close>

lemma lru_scenario:
  assumes d: "distinct [a, b, c, d]"
  shows "let w = run [Put a va, Put b vb, Put c vc, Get a, Put d vd] (KVStore 3 path fs) in
         \<not> fst (exists b w) \<and> fst (exists a w) \<and> fst (exists c w) \<and> fst (exists d w)
       \<and> lru_list (fst w) = [d, a, c]"
proof -
  define w0 where "w0 = KVStore 3 path fs"
  define w1 where "w1 = snd (put a va w0)"
  define w2 where "w2 = snd (put b vb w1)"
  define w3 where "w3 = snd (put c vc w2)"
  define w4 where "w4 = snd (get a w3)"
  define w5 where "w5 = snd (put d vd w4)"
  have ne: "a \<noteq> b" "a \<noteq> c" "a \<noteq> d" "b \<noteq> c" "b \<noteq> d" "c \<noteq> d"
    "b \<noteq> a" "c \<noteq> a" "d \<noteq> a" "c \<noteq> b" "d \<noteq> b" "d \<noteq> c"
    using d by auto
  have cap: "max_capacity (fst w0) = 3" "max_capacity (fst w1) = 3" "max_capacity (fst w2) = 3"
    "max_capacity (fst w3) = 3" "max_capacity (fst w4) = 3"
    by (simp_all add: w0_def w1_def w2_def w3_def w4_def)
  have s0: "lru_list (fst w0) = []" "cache (fst w0) = Mapping.empty"
    by (simp_all add: w0_def)
  have s1: "lru_list (fst w1) = [a]" "cache (fst w1) = Mapping.update a va Mapping.empty"
    unfolding w1_def using put_store_absent [of w0 a va] s0 cap by simp_all
  have s2: "lru_list (fst w2) = [b, a]"
    "cache (fst w2) = Mapping.update b vb (Mapping.update a va Mapping.empty)"
    unfolding w2_def using ne s1 cap put_store_absent [of w1 b vb]
    by (simp_all add: Mapping.size_def card_insert_if lookup_update')
  have s3: "lru_list (fst w3) = [c, b, a]"
    "cache (fst w3) = Mapping.update c vc (Mapping.update b vb (Mapping.update a va Mapping.empty))"
    unfolding w3_def using ne s2 cap put_store_absent [of w2 c vc]
    by (simp_all add: Mapping.size_def card_insert_if lookup_update')
  have s4: "lru_list (fst w4) = [a, c, b]"
    "cache (fst w4) = Mapping.update c vc (Mapping.update b vb (Mapping.update a va Mapping.empty))"
    unfolding w4_def using ne s3 get_store_present [of w3 a va]
    by (simp_all add: lookup_update')
  have s5: "lru_list (fst w5) = [d, a, c]"
    "cache (fst w5) = Mapping.update d vd (Mapping.delete b
        (Mapping.update c vc (Mapping.update b vb (Mapping.update a va Mapping.empty))))"
    unfolding w5_def using ne s4 cap put_store_evict [of w4 d vd]
    by (simp_all add: Mapping.size_def card_insert_if lookup_update')
  have "run [Put a va, Put b vb, Put c vc, Get a, Put d vd] (KVStore 3 path fs) = w5"
    by (simp add: w0_def w1_def w2_def w3_def w4_def w5_def)
  then show ?thesis using ne s5
    by (simp add: exists_def lookup_update')
qed

text \<open>
  C4. A \<^verbatim>\<open>get\<close> of a present key returns its value and moves the key to the head of the
  recency list. Hence, with capacity 3 and four different keys A, B, C, D: after
  put(A), put(B), put(C), get(A), put(D) the key B is gone and A, C and D are present
  (the recency list is D, A, C).
\<close>

theorem recency_promotion:
  "(Mapping.lookup (cache s) k = Some v \<longrightarrow>
      get k (s, fs) = (Some v, (s\<lparr>lru_list := k # remove1 k (lru_list s)\<rparr>, fs)))
   \<and> (distinct [a, b, c, d] \<longrightarrow>
      (let w = run [Put a va, Put b vb, Put c vc, Get a, Put d vd] (KVStore 3 path fs') in
         \<not> fst (exists b w) \<and> fst (exists a w) \<and> fst (exists c w) \<and> fst (exists d w)
       \<and> lru_list (fst w) = [d, a, c]))"
  using lru_scenario [of a b c d va vb vc vd path fs'] by (simp add: get_def)

theorem recency_promotion_witness:
  "Mapping.lookup (cache \<lparr>cache = Mapping.update ''A'' ''1'' Mapping.empty, lru_list = [''A''],
       max_capacity = 3, wal_path = [], wal_file = False\<rparr>) ''A'' = Some ''1''
   \<and> distinct [''A'', ''B'', ''C'', ''D'']
   \<and> (let w = run [Put ''A'' ''1'', Put ''B'' ''2'', Put ''C'' ''3'', Get ''A'', Put ''D'' ''4'']
                 (KVStore 3 [] disk0) in
         \<not> fst (exists ''B'' w) \<and> fst (exists ''A'' w) \<and> fst (exists ''C'' w) \<and> fst (exists ''D'' w))"
  using recency_promotion [of "\<lparr>cache = Mapping.update ''A'' ''1'' Mapping.empty, lru_list = [''A''],
       max_capacity = 3, wal_path = [], wal_file = False\<rparr>" "''A''" "''1''" disk0
       "''A''" "''B''" "''C''" "''D''" "''1''" "''2''" "''3''" "''4''" "[]" disk0]
  by (simp add: Let_def)

text \<open>
  C5. In every state the store can reach, \<^verbatim>\<open>del k\<close> returns true exactly when \<^verbatim>\<open>k\<close> was
  present; afterwards \<^verbatim>\<open>k\<close> is neither in the index nor in the recency list,
  \<^verbatim>\<open>exists k\<close> is false and a second \<^verbatim>\<open>del k\<close> returns false; and \<^verbatim>\<open>del\<close> of an absent
  key changes nothing, the log included.
\<close>

theorem delete_exists_consistency:
  "let w = run cs (KVStore cap path fs); r = fst (del k w); w' = snd (del k w) in
     r = fst (exists k w)
   \<and> Mapping.lookup (cache (fst w')) k = None
   \<and> k \<notin> set (lru_list (fst w'))
   \<and> \<not> fst (exists k w')
   \<and> \<not> fst (del k w')
   \<and> (\<not> fst (exists k w) \<longrightarrow> w' = w)"
proof -
  define w where "w = run cs (KVStore cap path fs)"
  have c: "consistent (fst w)"
    unfolding w_def by (intro run_consistent KVStore_consistent)
  obtain s fs' where w: "w = (s, fs')" by (cases w)
  have c': "consistent (fst (snd (del k w)))" using c by (rule del_consistent)
  have gone: "Mapping.lookup (cache (fst (snd (del k w)))) k = None"
    using w by (simp add: del_def)
  then have "k \<notin> set (lru_list (fst (snd (del k w))))"
    using c' by (simp add: consistent_def lookup_None_keys)
  moreover have "\<not> fst (del k (snd (del k w)))"
    using gone by (cases "snd (del k w)") (simp add: del_def)
  ultimately show ?thesis
    using gone w unfolding w_def [symmetric] Let_def
    by (simp add: exists_def) (simp add: del_def)
qed

theorem delete_exists_consistency_witness:
  "(let w = run [Put ''a'' ''1''] (KVStore 2 ''wal'' disk0); r = fst (del ''b'' w); w' = snd (del ''b'' w) in
     \<not> fst (exists ''b'' w) \<and> w' = w \<and> \<not> r)"
  using delete_exists_consistency [of "[Put ''a'' ''1'']" 2 "''wal''" disk0 "''b''"]
  by (simp add: eval_defs)

text \<open>
  C7. \<^verbatim>\<open>exists k\<close> leaves the store and the file system as they were, and so does
  \<^verbatim>\<open>get k\<close> when \<^verbatim>\<open>k\<close> is absent, which returns no value.
\<close>

theorem exists_get_absent_frame:
  "snd (exists k w) = w \<and> (\<not> fst (exists k w) \<longrightarrow> get k w = (None, w))"
  by (cases w) (simp add: exists_def get_def)

theorem exists_get_absent_frame_witness:
  "\<not> fst (exists ''k'' (run [Put ''a'' ''1''] (KVStore 2 ''wal'' disk0))) \<and>
   get ''k'' (run [Put ''a'' ''1''] (KVStore 2 ''wal'' disk0)) = (None, run [Put ''a'' ''1''] (KVStore 2 ''wal'' disk0))"
proof -
  let ?w = "run [Put ''a'' ''1''] (KVStore 2 ''wal'' disk0)"
  have h: "\<not> fst (exists ''k'' ?w)"
    by (simp add: eval_defs)
  with exists_get_absent_frame [of "''k''" ?w] show ?thesis
    by blast
qed

text \<open>
  C10. The empty string is a key like any other: \<^verbatim>\<open>put\<close> of the empty key returns true,
  and afterwards \<^verbatim>\<open>exists\<close> of the empty key is true and \<^verbatim>\<open>get\<close> returns the value that
  was put.
\<close>

theorem empty_key_accepted:
  "fst (put [] v w) \<and> fst (exists [] (snd (put [] v w))) \<and> fst (get [] (snd (put [] v w))) = Some v"
  using get_present [OF put_lookup_same, of "[]" v w] by (simp add: exists_def)

section \<open>The log\<close>

subsection \<open>What is written\<close>

lemma getlines_acc_line:
  "newline \<notin> set l \<Longrightarrow> getlines_acc acc (l @ newline # rest) = (acc @ l) # getlines_acc [] rest"
  by (induction l arbitrary: acc) auto

lemma getlines_line: "newline \<notin> set l \<Longrightarrow> getlines (l @ newline # rest) = l # getlines rest"
  by (simp add: getlines_def getlines_acc_line)

lemma getlines_Nil [simp]: "getlines [] = []"
  by (simp add: getlines_def)

lemma put_log:
  "wal_file s \<Longrightarrow> contents fs (wal_path s) = Some old \<Longrightarrow>
   contents (snd (snd (put k v (s, fs)))) (wal_path s) =
     Some (old @ ''PUT'' @ '' '' @ k @ (if v = [] then [] else '' '' @ v) @ [newline])"
  by (simp add: put_def write_wal_def append_file_def Let_def)

lemma del_log:
  "wal_file s \<Longrightarrow> contents fs (wal_path s) = Some old \<Longrightarrow> Mapping.lookup (cache s) k \<noteq> None \<Longrightarrow>
   contents (snd (snd (del k (s, fs)))) (wal_path s) = Some (old @ ''DEL'' @ '' '' @ k @ [newline])"
  by (simp add: del_def write_wal_def append_file_def Let_def)

lemma clear_log:
  "wal_file s \<Longrightarrow> contents fs (wal_path s) = Some old \<Longrightarrow>
   contents (snd (clear (s, fs))) (wal_path s) = Some (old @ ''CLEAR'' @ '' '' @ [newline])"
  by (simp add: clear_def write_wal_def append_file_def Let_def)

lemma newline_not_space [simp]: "newline \<noteq> CHR '' ''"
  by (simp add: newline_def)

text \<open>
  C3, as stated, fails for \<^verbatim>\<open>clear\<close>: \<^verbatim>\<open>write_wal\<close> writes the separator before the key
  also when the key is empty, so the line of a \<^verbatim>\<open>CLEAR\<close> record is the operation name
  followed by one space.
\<close>

theorem clear_record_counterexample:
  "contents (snd (clear (KVStore 1 ''wal'' disk0))) ''wal'' = Some (''CLEAR '' @ [newline])
   \<and> contents (snd (clear (KVStore 1 ''wal'' disk0))) ''wal'' \<noteq> Some (''CLEAR'' @ [newline])"
  by (simp add: eval_defs)

text \<open>
  C3, amended. With the log open, each mutating call appends one record to the file:
  \<^verbatim>\<open>PUT\<close>, a space, the key and, only when the value is not empty, a space and the value;
  \<^verbatim>\<open>DEL\<close>, a space and the key (when the key was present); \<^verbatim>\<open>CLEAR\<close> and a space. Each
  ends with a newline, and is read back as one line when key and value hold no newline.
\<close>

theorem log_record_layout:
  "wal_file s \<and> contents fs (wal_path s) = Some old \<longrightarrow>
     contents (snd (snd (put k v (s, fs)))) (wal_path s) =
       Some (old @ ''PUT'' @ '' '' @ k @ (if v = [] then [] else '' '' @ v) @ [newline])
   \<and> (fst (del k (s, fs)) \<longrightarrow>
        contents (snd (snd (del k (s, fs)))) (wal_path s) = Some (old @ ''DEL'' @ '' '' @ k @ [newline]))
   \<and> contents (snd (clear (s, fs))) (wal_path s) = Some (old @ ''CLEAR'' @ '' '' @ [newline])
   \<and> (newline \<notin> set k \<and> newline \<notin> set v \<longrightarrow>
        getlines (''PUT'' @ '' '' @ k @ (if v = [] then [] else '' '' @ v) @ [newline])
          = [''PUT'' @ '' '' @ k @ (if v = [] then [] else '' '' @ v)]
      \<and> getlines (''DEL'' @ '' '' @ k @ [newline]) = [''DEL'' @ '' '' @ k])
   \<and> getlines (''CLEAR'' @ '' '' @ [newline]) = [''CLEAR'' @ '' '']"
proof (intro impI conjI)
  assume a: "wal_file s \<and> contents fs (wal_path s) = Some old"
  show "contents (snd (snd (put k v (s, fs)))) (wal_path s) =
       Some (old @ ''PUT'' @ '' '' @ k @ (if v = [] then [] else '' '' @ v) @ [newline])"
    using a by (simp only: put_log)
  show "contents (snd (clear (s, fs))) (wal_path s) = Some (old @ ''CLEAR'' @ '' '' @ [newline])"
    using a by (simp only: clear_log)
  show "getlines (''CLEAR'' @ '' '' @ [newline]) = [''CLEAR'' @ '' '']"
    using getlines_line [of "''CLEAR ''" "[]"] by (simp add: newline_def)
  {
    assume "fst (del k (s, fs))"
    then have "Mapping.lookup (cache s) k \<noteq> None"
      by (auto simp: del_def split: if_splits)
    then show "contents (snd (snd (del k (s, fs)))) (wal_path s) = Some (old @ ''DEL'' @ '' '' @ k @ [newline])"
      using a by (simp add: del_log)
  }
  {
    assume n: "newline \<notin> set k \<and> newline \<notin> set v"
    have "newline \<notin> set (''PUT'' @ '' '' @ k @ (if v = [] then [] else '' '' @ v))"
      using n by (simp add: newline_def)
    from getlines_line [OF this, of "[]"]
    show "getlines (''PUT'' @ '' '' @ k @ (if v = [] then [] else '' '' @ v) @ [newline])
          = [''PUT'' @ '' '' @ k @ (if v = [] then [] else '' '' @ v)]"
      by simp
    have "newline \<notin> set (''DEL'' @ '' '' @ k)"
      using n by (simp add: newline_def)
    from getlines_line [OF this, of "[]"]
    show "getlines (''DEL'' @ '' '' @ k @ [newline]) = [''DEL'' @ '' '' @ k]"
      by simp
  }
qed

theorem log_record_layout_witness:
  "wal_file (fst (run [Put ''a'' ''1''] (KVStore 2 ''wal'' disk0)))
   \<and> contents (snd (run [Put ''a'' ''1''] (KVStore 2 ''wal'' disk0))) ''wal'' = Some (''PUT a 1'' @ [newline])
   \<and> fst (del ''a'' (run [Put ''a'' ''1''] (KVStore 2 ''wal'' disk0)))
   \<and> newline \<notin> set ''a'' \<and> newline \<notin> set ''1''
   \<and> contents (snd (snd (del ''a'' (run [Put ''a'' ''1''] (KVStore 2 ''wal'' disk0))))) ''wal''
       = Some (''PUT a 1'' @ [newline] @ ''DEL a'' @ [newline])
   \<and> getlines (''DEL a'' @ [newline]) = [''DEL a'']"
proof -
  let ?w = "run [Put ''a'' ''1''] (KVStore 2 ''wal'' disk0)"
  have p: "wal_path (fst ?w) = ''wal''"
    by (simp add: eval_defs)
  have h1: "wal_file (fst ?w) \<and> contents (snd ?w) (wal_path (fst ?w)) = Some (''PUT a 1'' @ [newline])"
    by (simp add: eval_defs)
  have h2: "fst (del ''a'' ?w)"
    by (simp add: eval_defs)
  have h3: "newline \<notin> set ''a'' \<and> newline \<notin> set ''1''"
    by (simp add: newline_def)
  from log_record_layout [of "fst ?w" "snd ?w" "''PUT a 1'' @ [newline]" "''a''" "''1''"] h1 h2 h3 p
  show ?thesis
    by simp
qed

subsection \<open>Reading back what was written\<close>

lemma read_token_word:
  assumes "t \<noteq> []" "list_all (\<lambda>c. \<not> isspace c) t" "rest = [] \<or> isspace (hd rest)"
  shows "read_token (t @ rest) = Some (t, rest)"
proof -
  obtain c cs where t: "t = c # cs" using assms(1) by (cases t) auto
  have ns: "\<And>x. x \<in> set t \<Longrightarrow> \<not> isspace x" using assms(2) by (simp add: list_all_iff)
  have d: "dropWhile isspace (t @ rest) = t @ rest"
    using t ns by simp
  have tw: "takeWhile (\<lambda>c. \<not> isspace c) rest = []"
    using assms(3) by (cases rest) auto
  have dw: "dropWhile (\<lambda>c. \<not> isspace c) rest = rest"
    using assms(3) by (cases rest) auto
  have "takeWhile (\<lambda>c. \<not> isspace c) (t @ rest) = t"
    using ns tw by (simp add: takeWhile_append2)
  moreover have "dropWhile (\<lambda>c. \<not> isspace c) (t @ rest) = rest"
    using ns dw by (simp add: dropWhile_append2)
  ultimately show ?thesis
    using d t by (simp add: read_token_def)
qed

lemma read_token_space:
  "read_token (CHR '' '' # inp) = read_token inp"
  by (simp add: read_token_def isspace_def)

lemma wf_key_newline: "wf_key k \<Longrightarrow> newline \<notin> set k"
  by (auto simp: wf_key_def list_all_iff isspace_def newline_def)

lemma replay_line_put:
  assumes "wf_key k" "wf_value v"
  shows "replay_line (wal_line (Put k v)) w = snd (put k v w)"
proof -
  let ?tail = "(if v \<noteq> [] then '' '' @ v else [])"
  have op: "read_token (''PUT'' @ ('' '' @ k @ ?tail)) = Some (''PUT'', '' '' @ k @ ?tail)"
    by (rule read_token_word) (simp_all add: isspace_def)
  have "read_token (k @ ?tail) = Some (k, ?tail)"
    using assms(1) by (intro read_token_word) (simp_all add: wf_key_def isspace_def)
  then have key: "read_token ('' '' @ k @ ?tail) = Some (k, ?tail)"
    by (simp add: read_token_space)
  have gl: "getline_rest ?tail = ?tail"
    using assms(2) by (auto simp: getline_rest_def wf_value_def newline_def)
  have "(let v0 = getline_rest ?tail; v' = (if v0 \<noteq> [] \<and> hd v0 = CHR '' '' then tl v0 else v0)
         in snd (put k v' w)) = snd (put k v w)"
    unfolding gl by (simp add: Let_def)
  with op key show ?thesis
    by (simp add: replay_line_def del: append.simps)
qed

lemma replay_line_del:
  assumes "wf_key k"
  shows "replay_line (wal_line (Del k)) w = snd (del k w)"
proof -
  have op: "read_token (''DEL'' @ ('' '' @ k)) = Some (''DEL'', '' '' @ k)"
    by (rule read_token_word) (simp_all add: isspace_def)
  have "read_token (k @ []) = Some (k, [])"
    using assms(1) by (intro read_token_word) (simp_all add: wf_key_def)
  then have key: "read_token ('' '' @ k) = Some (k, [])"
    by (simp add: read_token_space)
  from op key show ?thesis
    by (simp add: replay_line_def del: append.simps)
qed

lemma replay_line_clear: "replay_line (wal_line Clear) w = clear w"
proof -
  have op: "read_token (''CLEAR'' @ '' '') = Some (''CLEAR'', '' '')"
    by (rule read_token_word) (simp_all add: isspace_def)
  then show ?thesis
    by (simp add: replay_line_def del: append.simps)
qed

lemma replay_line_wal_line: "wf_call c \<Longrightarrow> replay_line (wal_line c) w = exec c w"
  by (cases c) (simp_all only: wf_call.simps replay_line_put replay_line_del replay_line_clear exec.simps)

lemma wal_line_no_newline: "wf_call c \<Longrightarrow> newline \<notin> set (wal_line c)"
  by (cases c) (auto simp: wf_value_def newline_def dest: wf_key_newline)

lemma replay_wal_text:
  "list_all wf_call cs \<Longrightarrow> replay (getlines (wal_text cs)) w = run cs w"
proof (induction cs arbitrary: w)
  case Nil
  then show ?case by (simp add: wal_text_def)
next
  case (Cons c cs)
  then have c: "wf_call c" and cs: "list_all wf_call cs" by simp_all
  have "getlines (wal_text (c # cs)) = wal_line c # getlines (wal_text cs)"
    using getlines_line [OF wal_line_no_newline [OF c], of "wal_text cs"]
    by (simp add: wal_text_def)
  then show ?case
    using Cons.IH [OF cs] replay_line_wal_line [OF c] by simp
qed

lemma write_wal_off: "\<not> wal_file (fst w) \<Longrightarrow> write_wal operation k v w = w"
  by (cases w) (simp add: write_wal_def)

lemma exec_nolog:
  assumes "wf_call c" "\<not> wal_file (fst w)"
  shows "snd (exec c w) = snd w" and "\<not> wal_file (fst (exec c w))"
  using assms
  by (cases c; cases w; simp add: put_def del_def clear_def Let_def write_wal_def)+

lemma run_nolog:
  "list_all wf_call cs \<Longrightarrow> \<not> wal_file (fst w) \<Longrightarrow> snd (run cs w) = snd w"
  by (induction cs arbitrary: w) (simp_all add: exec_nolog)

text \<open>
  C9. \<^verbatim>\<open>recover\<close> does not empty the store first. When the log holds the records of the
  calls \<^verbatim>\<open>cs\<close>, the store after \<^verbatim>\<open>recover\<close> is the store before it with \<^verbatim>\<open>cs\<close> run on top,
  logging switched off meanwhile and put back afterwards; the file system is untouched.
  The witness recovers into a store that holds a key the log never mentions: the key
  is still there afterwards, unlike in a store rebuilt from the log alone.
\<close>

theorem recover_on_top:
  "list_all wf_call cs \<and> wal_path s \<noteq> [] \<and> open_read (wal_path s) fs = Some (wal_text cs) \<longrightarrow>
     recover (s, fs) = (True, ((fst (run cs (s\<lparr>wal_file := False\<rparr>, fs)))\<lparr>wal_file := wal_file s\<rparr>, fs))"
proof
  assume a: "list_all wf_call cs \<and> wal_path s \<noteq> [] \<and> open_read (wal_path s) fs = Some (wal_text cs)"
  then have "replay (getlines (wal_text cs)) (s\<lparr>wal_file := False\<rparr>, fs) = run cs (s\<lparr>wal_file := False\<rparr>, fs)"
    by (simp add: replay_wal_text)
  moreover have "snd (run cs (s\<lparr>wal_file := False\<rparr>, fs)) = fs"
    using a run_nolog [of cs "(s\<lparr>wal_file := False\<rparr>, fs)"] by simp
  ultimately show "recover (s, fs) = (True, ((fst (run cs (s\<lparr>wal_file := False\<rparr>, fs)))\<lparr>wal_file := wal_file s\<rparr>, fs))"
    using a by (simp add: recover_success)
qed

theorem recover_on_top_witness:
  "list_all wf_call [Put ''a'' ''1'']
   \<and> wal_path (fst (run [Put ''z'' ''9''] (KVStore 3 ''wal'' disk2))) \<noteq> []
   \<and> open_read (wal_path (fst (run [Put ''z'' ''9''] (KVStore 3 ''wal'' disk2))))
                (snd (run [Put ''z'' ''9''] (KVStore 3 ''wal'' disk2))) = Some (wal_text [Put ''a'' ''1''])
   \<and> fst (recover (run [Put ''z'' ''9''] (KVStore 3 ''wal'' disk2)))
   \<and> lru_list (fst (snd (recover (run [Put ''z'' ''9''] (KVStore 3 ''wal'' disk2))))) = [''a'', ''z'']
   \<and> lru_list (fst (snd (recover (KVStore 3 ''wal'' disk2)))) = [''a'']"
proof -
  let ?w = "run [Put ''z'' ''9''] (KVStore 3 ''wal'' disk2)"
  have w: "?w = (\<lparr>cache = Mapping.update ''z'' ''9'' Mapping.empty, lru_list = [''z''], max_capacity = 3,
                   wal_path = ''wal'', wal_file = False\<rparr>, disk2)"
    by (simp add: eval_defs disk2_def)
  have h1: "list_all wf_call [Put ''a'' ''1'']"
    by (simp add: wf_key_def wf_value_def isspace_def newline_def)
  have h2: "wal_path (fst ?w) \<noteq> []" unfolding w by simp
  have h3: "open_read (wal_path (fst ?w)) (snd ?w) = Some (wal_text [Put ''a'' ''1''])"
    unfolding w by (simp add: open_read_def disk2_def wal_text_def)
  have fresh: "lru_list (fst (snd (recover (KVStore 3 ''wal'' disk2)))) = [''a'']"
    by (simp add: eval_defs replay_defs disk2_def)
  define x where "x = run [Put ''a'' ''1''] ((fst ?w)\<lparr>wal_file := False\<rparr>, snd ?w)"
  have x: "lru_list (fst x) = [''a'', ''z'']"
    unfolding x_def w by (simp add: eval_defs Mapping.size_def lookup_update')
  from recover_on_top [of "[Put ''a'' ''1'']" "fst ?w" "snd ?w"] h1 h2 h3
  have "recover ?w = (True, ((fst x)\<lparr>wal_file := wal_file (fst ?w)\<rparr>, snd ?w))"
    unfolding x_def by simp
  then have "fst (recover ?w)" "lru_list (fst (snd (recover ?w))) = [''a'', ''z'']"
    using x by simp_all
  with h1 h2 h3 fresh show ?thesis by blast
qed

subsection \<open>The round trip\<close>

lemma evict_lru_wal_file: "evict_lru (s\<lparr>wal_file := b\<rparr>) = (evict_lru s)\<lparr>wal_file := b\<rparr>"
  by (simp add: evict_lru_def)

lemma put_store_off:
  "fst (snd (put k v (s\<lparr>wal_file := False\<rparr>, fs0))) = (fst (snd (put k v (s, fs))))\<lparr>wal_file := False\<rparr>"
  by (simp add: put_def Let_def evict_lru_wal_file)

lemma del_store_off:
  "fst (snd (del k (s\<lparr>wal_file := False\<rparr>, fs0))) = (fst (snd (del k (s, fs))))\<lparr>wal_file := False\<rparr>"
  by (simp add: del_def)

lemma clear_store_off:
  "fst (clear (s\<lparr>wal_file := False\<rparr>, fs0)) = (fst (clear (s, fs)))\<lparr>wal_file := False\<rparr>"
  by (simp add: clear_def)

lemma exec_store_off:
  assumes "wf_call c"
  shows "exec c (s\<lparr>wal_file := False\<rparr>, fs0) = ((fst (exec c (s, fs)))\<lparr>wal_file := False\<rparr>, fs0)"
proof -
  have "snd (exec c (s\<lparr>wal_file := False\<rparr>, fs0)) = fs0"
    using exec_nolog(1) [OF assms, of "(s\<lparr>wal_file := False\<rparr>, fs0)"] by simp
  moreover have "fst (exec c (s\<lparr>wal_file := False\<rparr>, fs0)) = (fst (exec c (s, fs)))\<lparr>wal_file := False\<rparr>"
    using assms by (cases c) (simp_all add: put_store_off del_store_off clear_store_off)
  ultimately show ?thesis by (simp add: prod_eq_iff)
qed

lemma exec_wal_fields:
  assumes "wf_call c"
  shows "wal_file (fst (exec c w)) = wal_file (fst w)"
    and "wal_path (fst (exec c w)) = wal_path (fst w)"
    and "append_ok (snd (exec c w)) = append_ok (snd w)"
    and "read_ok (snd (exec c w)) = read_ok (snd w)"
  using assms
  by (cases c; cases w;
      simp add: put_def del_def clear_def Let_def write_wal_def append_file_def evict_lru_def)+

text \<open>One logged call: what it appends is the text of the calls that replay repeats.\<close>

lemma exec_logged:
  assumes c: "wf_call c" and on: "wal_file s" and old: "contents fs (wal_path s) = Some old"
  shows "\<exists>cs'. list_all wf_call cs'
           \<and> contents (snd (exec c (s, fs))) (wal_path s) = Some (old @ wal_text cs')
           \<and> (\<forall>fs0. run cs' (s\<lparr>wal_file := False\<rparr>, fs0) = ((fst (exec c (s, fs)))\<lparr>wal_file := False\<rparr>, fs0))"
proof (cases "\<exists>k. c = Del k \<and> Mapping.lookup (cache s) k = None")
  case True
  then obtain k where k: "c = Del k" "Mapping.lookup (cache s) k = None" by auto
  have "exec c (s, fs) = (s, fs)" using k by (simp add: del_def)
  then have "list_all wf_call []
           \<and> contents (snd (exec c (s, fs))) (wal_path s) = Some (old @ wal_text [])
           \<and> (\<forall>fs0. run [] (s\<lparr>wal_file := False\<rparr>, fs0) = ((fst (exec c (s, fs)))\<lparr>wal_file := False\<rparr>, fs0))"
    using old by (simp add: wal_text_def)
  then show ?thesis by blast
next
  case False
  have rec: "contents (snd (exec c (s, fs))) (wal_path s) = Some (old @ wal_text [c])"
  proof (cases c)
    case (Put k v)
    then show ?thesis using put_log [OF on old, of k v] by (simp add: wal_text_def)
  next
    case (Del k)
    with False have "Mapping.lookup (cache s) k \<noteq> None" by simp
    then show ?thesis using del_log [OF on old, of k] Del by (simp add: wal_text_def)
  next
    case Clear
    then show ?thesis using clear_log [OF on old] by (simp add: wal_text_def)
  qed (use c in simp_all)
  have "\<forall>fs0. run [c] (s\<lparr>wal_file := False\<rparr>, fs0) = ((fst (exec c (s, fs)))\<lparr>wal_file := False\<rparr>, fs0)"
    using exec_store_off [OF c] by simp
  with rec c have "list_all wf_call [c]
           \<and> contents (snd (exec c (s, fs))) (wal_path s) = Some (old @ wal_text [c])
           \<and> (\<forall>fs0. run [c] (s\<lparr>wal_file := False\<rparr>, fs0) = ((fst (exec c (s, fs)))\<lparr>wal_file := False\<rparr>, fs0))"
    by simp
  then show ?thesis by blast
qed

lemma run_append: "run (xs @ ys) w = run ys (run xs w)"
  by (induction xs arbitrary: w) simp_all

lemma wal_text_append: "wal_text (xs @ ys) = wal_text xs @ wal_text ys"
  by (simp add: wal_text_def)

lemma run_logged:
  assumes "list_all wf_call cs" "wal_file s" "contents fs (wal_path s) = Some old"
  shows "\<exists>cs'. list_all wf_call cs'
           \<and> contents (snd (run cs (s, fs))) (wal_path s) = Some (old @ wal_text cs')
           \<and> (\<forall>fs0. run cs' (s\<lparr>wal_file := False\<rparr>, fs0) = ((fst (run cs (s, fs)))\<lparr>wal_file := False\<rparr>, fs0))"
  using assms
proof (induction cs arbitrary: s fs old)
  case Nil
  have "list_all wf_call [] \<and> contents (snd (run [] (s, fs))) (wal_path s) = Some (old @ wal_text [])
      \<and> (\<forall>fs0. run [] (s\<lparr>wal_file := False\<rparr>, fs0) = ((fst (run [] (s, fs)))\<lparr>wal_file := False\<rparr>, fs0))"
    using Nil by (simp add: wal_text_def)
  then show ?case by blast
next
  case (Cons c cs)
  then have c: "wf_call c" and cs: "list_all wf_call cs" by simp_all
  obtain s1 fs1 where w1: "exec c (s, fs) = (s1, fs1)" by (cases "exec c (s, fs)")
  from exec_logged [OF c Cons.prems(2) Cons.prems(3)] w1
  obtain xs where xs: "list_all wf_call xs" "contents fs1 (wal_path s) = Some (old @ wal_text xs)"
    "\<And>fs0. run xs (s\<lparr>wal_file := False\<rparr>, fs0) = (s1\<lparr>wal_file := False\<rparr>, fs0)"
    by auto
  have f1: "wal_file s1" "wal_path s1 = wal_path s"
    using exec_wal_fields(1,2) [OF c, of "(s, fs)"] w1 Cons.prems(2) by simp_all
  from Cons.IH [OF cs f1(1), of fs1 "old @ wal_text xs"] xs(2) f1(2)
  obtain ys where ys: "list_all wf_call ys"
    "contents (snd (run cs (s1, fs1))) (wal_path s) = Some (old @ wal_text xs @ wal_text ys)"
    "\<And>fs0. run ys (s1\<lparr>wal_file := False\<rparr>, fs0) = ((fst (run cs (s1, fs1)))\<lparr>wal_file := False\<rparr>, fs0)"
    by auto
  have "list_all wf_call (xs @ ys)
      \<and> contents (snd (run (c # cs) (s, fs))) (wal_path s) = Some (old @ wal_text (xs @ ys))
      \<and> (\<forall>fs0. run (xs @ ys) (s\<lparr>wal_file := False\<rparr>, fs0)
                = ((fst (run (c # cs) (s, fs)))\<lparr>wal_file := False\<rparr>, fs0))"
    using xs ys w1 by (simp add: run_append wal_text_append)
  then show ?case by blast
qed

lemma run_wal_fields:
  assumes "list_all wf_call cs"
  shows "wal_file (fst (run cs w)) = wal_file (fst w)"
    and "wal_path (fst (run cs w)) = wal_path (fst w)"
    and "append_ok (snd (run cs w)) = append_ok (snd w)"
    and "read_ok (snd (run cs w)) = read_ok (snd w)"
  using assms by (induction cs arbitrary: w; simp add: exec_wal_fields)+

lemma KVStore_logging:
  assumes "path \<noteq> []" "append_ok fs path"
  shows "fst (KVStore cap path fs) =
           \<lparr>cache = Mapping.empty, lru_list = [], max_capacity = cap, wal_path = path, wal_file = True\<rparr>"
    and "contents fs path = Some old \<Longrightarrow> snd (KVStore cap path fs) = fs"
    and "contents fs path = None \<Longrightarrow> contents (snd (KVStore cap path fs)) path = Some []"
    and "append_ok (snd (KVStore cap path fs)) = append_ok fs"
    and "read_ok (snd (KVStore cap path fs)) = read_ok fs"
  using assms by (simp_all add: KVStore_def open_append_def split: option.splits)

text \<open>
  C2, as stated, fails: a key may hold no space and still hold white space. With the key
  \<^verbatim>\<open>a<TAB>b\<close> the record is read back as the key \<^verbatim>\<open>a\<close>, since \<^verbatim>\<open>operator>>\<close> stops at any
  white space.
\<close>

theorem round_trip_tab_key_counterexample:
  "[CHR ''a'', CHR 0x09, CHR ''b''] \<noteq> [] \<and> CHR '' '' \<notin> set [CHR ''a'', CHR 0x09, CHR ''b'']
   \<and> newline \<notin> set ''v''
   \<and> (let w1 = run [Put [CHR ''a'', CHR 0x09, CHR ''b''] ''v''] (KVStore 1 ''wal'' disk0);
           r = recover (KVStore 1 ''wal'' (snd w1))
       in fst r
        \<and> Mapping.keys (cache (fst w1)) = {[CHR ''a'', CHR 0x09, CHR ''b'']}
        \<and> Mapping.keys (cache (fst (snd r))) = {''a''}
        \<and> Mapping.keys (cache (fst (snd r))) \<noteq> Mapping.keys (cache (fst w1)))"
  by (simp add: eval_defs replay_defs)

text \<open>
  C2, amended. Take any sequence of put, delete and clear calls whose keys are non-empty and
  free of white space (space, tab, newline, vertical tab, form feed, carriage return) and
  whose values are free of newlines. Run it on a store constructed with capacity \<^verbatim>\<open>cap\<close>
  over a log that is absent or empty and can be opened. A second store constructed with
  the same capacity over the resulting log, after \<^verbatim>\<open>recover\<close>, which returns true, has the
  same index (keys and values) as the first; indeed the whole state is the same.
\<close>

theorem recovery_round_trip:
  assumes wf: "list_all wf_call cs"
    and path: "path \<noteq> []" and app: "append_ok fs path" and rd: "read_ok fs path"
    and fresh: "contents fs path = None \<or> contents fs path = Some []"
  shows "let w1 = run cs (KVStore cap path fs);
             r = recover (KVStore cap path (snd w1))
         in fst r \<and> cache (fst (snd r)) = cache (fst w1) \<and> snd r = w1"
proof -
  let ?s0 = "\<lparr>cache = Mapping.empty, lru_list = [], max_capacity = cap, wal_path = path, wal_file = True\<rparr>"
  obtain fs0 where w0: "KVStore cap path fs = (?s0, fs0)"
    using KVStore_logging(1) [OF path app] by (metis prod.collapse)
  have c0: "contents fs0 path = Some []"
    using fresh KVStore_logging(2,3) [OF path app] w0 by (metis snd_conv)
  have ok0: "append_ok fs0 path" "read_ok fs0 path"
    using KVStore_logging(4,5) [OF path app] w0 app rd by (metis snd_conv)+
  obtain s1 fs1 where w1: "run cs (?s0, fs0) = (s1, fs1)" by (cases "run cs (?s0, fs0)")
  from run_logged [OF wf, of ?s0 fs0 "[]"] c0 w1
  obtain cs' where cs': "list_all wf_call cs'" "contents fs1 path = Some (wal_text cs')"
    "\<And>fs'. run cs' (?s0\<lparr>wal_file := False\<rparr>, fs') = (s1\<lparr>wal_file := False\<rparr>, fs')"
    by auto
  have f1: "wal_file s1" "wal_path s1 = path" "append_ok fs1 path" "read_ok fs1 path"
    using run_wal_fields [OF wf, of "(?s0, fs0)"] w1 ok0 by simp_all
  have w2: "KVStore cap path fs1 = (?s0, fs1)"
    using KVStore_logging(1,2) [OF path f1(3)] cs'(2)
    by (simp add: prod_eq_iff)
  have "open_read (wal_path ?s0) fs1 = Some (wal_text cs')"
    using f1(4) cs'(2) by (simp add: open_read_def)
  then have "recover (?s0, fs1) = (True, ((fst (run cs' (?s0\<lparr>wal_file := False\<rparr>, fs1)))\<lparr>wal_file := wal_file ?s0\<rparr>, fs1))"
    using recover_success [of ?s0 fs1 "wal_text cs'"] path cs'(1)
      replay_wal_text [OF cs'(1), of "(?s0\<lparr>wal_file := False\<rparr>, fs1)"]
      run_nolog [OF cs'(1), of "(?s0\<lparr>wal_file := False\<rparr>, fs1)"]
    by simp
  then have "recover (?s0, fs1) = (True, (s1, fs1))"
    using cs'(3) [of fs1] f1(1) by simp
  then show ?thesis
    using w0 w1 w2 by (simp add: Let_def)
qed

theorem recovery_round_trip_witness:
  "list_all wf_call [Put ''a'' ''1'', Put ''b'' ''2'', Del ''a'', Del ''q'', Put ''c'' ''x  y'', Clear, Put ''d'' []]
   \<and> ''wal'' \<noteq> [] \<and> append_ok disk0 ''wal'' \<and> read_ok disk0 ''wal'' \<and> contents disk0 ''wal'' = None
   \<and> (let w1 = run [Put ''a'' ''1'', Put ''b'' ''2'', Del ''a'', Del ''q'', Put ''c'' ''x  y'', Clear, Put ''d'' []]
                  (KVStore 2 ''wal'' disk0);
           r = recover (KVStore 2 ''wal'' (snd w1))
       in fst r \<and> cache (fst (snd r)) = cache (fst w1) \<and> snd r = w1)"
proof -
  let ?cs = "[Put ''a'' ''1'', Put ''b'' ''2'', Del ''a'', Del ''q'', Put ''c'' ''x  y'', Clear, Put ''d'' []]"
  have h1: "list_all wf_call ?cs"
    by (simp add: wf_key_def wf_value_def isspace_def newline_def)
  have h2: "''wal'' \<noteq> []" by simp
  have h3: "append_ok disk0 ''wal''" by (simp add: disk0_def)
  have h4: "read_ok disk0 ''wal''" by (simp add: disk0_def)
  have h5: "contents disk0 ''wal'' = None" by (simp add: disk0_def)
  from recovery_round_trip [OF h1 h2 h3 h4 disjI1 [OF h5], of 2] h1 h2 h3 h4 h5
  show ?thesis by blast
qed

section \<open>Lines that are not records\<close>

text \<open>The tokens of a line are what repeated \<^verbatim>\<open>operator>>\<close> reads from it.\<close>

lemma read_token_Nil [simp]: "read_token [] = None"
  by (simp add: read_token_def)

lemma read_token_skip: "isspace c \<Longrightarrow> read_token (c # cs) = read_token cs"
  by (simp add: read_token_def)

lemma tokens_acc_read_token:
  "list_all (\<lambda>c. \<not> isspace c) acc \<Longrightarrow>
   tokens_acc acc l = (case read_token (acc @ l) of None \<Rightarrow> [] | Some (t, r) \<Rightarrow> t # tokens_acc [] r)"
proof (induction l arbitrary: acc)
  case Nil
  show ?case
  proof (cases "acc = []")
    case True
    then show ?thesis by simp
  next
    case False
    with Nil have "read_token (acc @ []) = Some (acc, [])"
      by (intro read_token_word) simp_all
    with False show ?thesis by simp
  qed
next
  case (Cons c cs)
  show ?case
  proof (cases "isspace c")
    case True
    show ?thesis
    proof (cases "acc = []")
      case True
      with \<open>isspace c\<close> Cons.IH [of "[]"] show ?thesis
        by (simp add: read_token_skip)
    next
      case False
      with Cons.prems True have "read_token (acc @ c # cs) = Some (acc, c # cs)"
        by (intro read_token_word) simp_all
      with False True show ?thesis by simp
    qed
  next
    case False
    with Cons.prems have "list_all (\<lambda>c. \<not> isspace c) (acc @ [c])" by simp
    from Cons.IH [OF this] False show ?thesis by simp
  qed
qed

lemma tokens_read_token:
  "tokens l = (case read_token l of None \<Rightarrow> [] | Some (t, r) \<Rightarrow> t # tokens r)"
  using tokens_acc_read_token [of "[]" l]
  by (simp add: tokens_def [abs_def] split: option.splits)

lemma tokens_Cons:
  assumes "tokens l = t # ts"
  obtains r where "read_token l = Some (t, r)" "tokens r = ts"
  using assms tokens_read_token [of l] by (auto split: option.splits)

lemma tokens_Nil: "tokens l = [] \<Longrightarrow> read_token l = None"
  using tokens_read_token [of l] by (auto split: option.splits)

text \<open>What the loop body does with a line, told from the tokens of the line.\<close>

lemma replay_line_clear_tokens:
  assumes "tokens l = ''CLEAR'' # rest"
  shows "replay_line l w = clear w"
proof -
  from assms obtain r where "read_token l = Some (''CLEAR'', r)" by (rule tokens_Cons)
  then show ?thesis by (simp add: replay_line_def)
qed

lemma replay_line_del_tokens:
  assumes "tokens l = ''DEL'' # k # rest"
  shows "replay_line l w = snd (del k w)"
proof -
  from assms obtain r where r: "read_token l = Some (''DEL'', r)" "tokens r = k # rest"
    by (rule tokens_Cons)
  from r(2) obtain r' where "read_token r = Some (k, r')" by (rule tokens_Cons)
  with r(1) show ?thesis by (simp add: replay_line_def)
qed

lemma replay_line_put_tokens:
  assumes "tokens l = ''PUT'' # k # rest"
  shows "\<exists>v. replay_line l w = snd (put k v w)"
proof -
  from assms obtain r where r: "read_token l = Some (''PUT'', r)" "tokens r = k # rest"
    by (rule tokens_Cons)
  from r(2) obtain r' where "read_token r = Some (k, r')" by (rule tokens_Cons)
  with r(1) show ?thesis by (simp add: replay_line_def Let_def) blast
qed

lemma replay_line_unreadable:
  assumes "unreadable l"
  shows "replay_line l w = w"
proof (cases "tokens l")
  case Nil
  then show ?thesis by (simp add: replay_line_def tokens_Nil)
next
  case (Cons op rest)
  then obtain r where r: "read_token l = Some (op, r)" "tokens r = rest" by (rule tokens_Cons)
  consider (put) "op = ''PUT''" | (del) "op = ''DEL''" | (other) "op \<noteq> ''PUT''" "op \<noteq> ''DEL''"
    by blast
  then show ?thesis
  proof cases
    case put
    with assms Cons have "rest = []" by (simp add: unreadable_def)
    with r have "read_token r = None" by (simp add: tokens_Nil)
    with put r show ?thesis by (simp add: replay_line_def)
  next
    case del
    with assms Cons have "rest = []" by (simp add: unreadable_def)
    with r have "read_token r = None" by (simp add: tokens_Nil)
    with del r show ?thesis by (simp add: replay_line_def)
  next
    case other
    with assms Cons have "op \<noteq> ''CLEAR''" by (simp add: unreadable_def)
    with other r show ?thesis by (simp add: replay_line_def)
  qed
qed

lemma replay_skips_unreadable: "replay ls w = replay (filter (\<lambda>l. \<not> unreadable l) ls) w"
  by (induction ls arbitrary: w) (simp_all add: replay_line_unreadable)

text \<open>Every line the store writes is a record, and no record is unreadable.\<close>

lemma wf_key_no_space: "wf_key k \<Longrightarrow> x \<in> set k \<Longrightarrow> x \<noteq> CHR '' ''"
  by (auto simp: wf_key_def list_all_iff isspace_def)

lemma wal_line_record: "wf_call c \<Longrightarrow> record_layout (wal_line c)"
proof (cases c)
  case (Put k v)
  assume "wf_call c"
  with Put have k: "wf_key k" by simp
  have "takeWhile (\<lambda>c. c \<noteq> CHR '' '') (k @ (if v \<noteq> [] then '' '' @ v else [])) = k"
    using wf_key_no_space [OF k] by (simp add: takeWhile_append2)
  with k Put show ?thesis by (simp add: record_layout_def)
next
  case (Del k)
  assume "wf_call c"
  with Del show ?thesis by (simp add: record_layout_def)
qed (simp_all add: record_layout_def)

lemma tokens_word:
  assumes "t \<noteq> []" "list_all (\<lambda>c. \<not> isspace c) t" "rest = [] \<or> isspace (hd rest)"
  shows "tokens (t @ rest) = t # tokens rest"
  using read_token_word [OF assms] tokens_read_token [of "t @ rest"] by simp

lemma tokens_space: "tokens (CHR '' '' # l) = tokens l"
  by (simp add: tokens_def isspace_def)

lemma record_readable:
  assumes "record_layout l"
  shows "\<not> unreadable l"
proof -
  consider (put) "take 4 l = ''PUT ''" "wf_key (takeWhile (\<lambda>c. c \<noteq> CHR '' '') (drop 4 l))"
    | (del) "take 4 l = ''DEL ''" "wf_key (drop 4 l)"
    | (clear) "l = ''CLEAR'' \<or> l = ''CLEAR ''"
    using assms by (auto simp: record_layout_def)
  then show ?thesis
  proof cases
    case put
    define k where "k = takeWhile (\<lambda>c. c \<noteq> CHR '' '') (drop 4 l)"
    define rest where "rest = dropWhile (\<lambda>c. c \<noteq> CHR '' '') (drop 4 l)"
    have l: "l = ''PUT'' @ (CHR '' '' # k @ rest)"
      using put(1) append_take_drop_id [of 4 l] by (simp add: k_def rest_def)
    have rest: "rest = [] \<or> isspace (hd rest)"
      using hd_dropWhile [of "\<lambda>c. c \<noteq> CHR '' ''" "drop 4 l"] by (auto simp: rest_def isspace_def)
    have k: "k \<noteq> []" "list_all (\<lambda>c. \<not> isspace c) k"
      using put(2) by (simp_all add: k_def wf_key_def)
    have "tokens l = ''PUT'' # tokens (CHR '' '' # k @ rest)"
      unfolding l by (rule tokens_word) (simp_all add: isspace_def)
    also have "tokens (CHR '' '' # k @ rest) = k # tokens rest"
      using tokens_word [OF k rest] by (simp add: tokens_space)
    finally show ?thesis by (simp add: unreadable_def)
  next
    case del
    define k where "k = drop 4 l"
    have l: "l = ''DEL'' @ (CHR '' '' # k @ [])"
      using del(1) append_take_drop_id [of 4 l] by (simp add: k_def)
    have k: "k \<noteq> []" "list_all (\<lambda>c. \<not> isspace c) k"
      using del(2) by (simp_all add: k_def wf_key_def)
    have "tokens l = ''DEL'' # tokens (CHR '' '' # k @ [])"
      unfolding l by (rule tokens_word) (simp_all add: isspace_def)
    also have "tokens (CHR '' '' # k @ []) = k # tokens []"
      using tokens_word [OF k, of "[]"] by (simp add: tokens_space)
    finally show ?thesis by (simp add: unreadable_def)
  next
    case clear
    then show ?thesis
      by (auto simp: unreadable_def tokens_def isspace_def)
  qed
qed

text \<open>
  C6, as stated, fails in its last part: not every malformed line is skipped. The line
  \<^verbatim>\<open>CLEAR junk\<close> is no record of the format, yet the loop reads its first token only and
  calls \<^verbatim>\<open>clear\<close>: after two \<^verbatim>\<open>PUT\<close> records the recovered store is empty, while without
  that line it holds both keys.
\<close>

theorem recover_applies_malformed_counterexample:
  "malformed ''CLEAR junk''
   \<and> fst (recover (KVStore 2 ''wal''
         (disk_with (''PUT a 1'' @ [newline] @ ''PUT b 2'' @ [newline] @ ''CLEAR junk'' @ [newline]))))
   \<and> lru_list (fst (snd (recover (KVStore 2 ''wal''
         (disk_with (''PUT a 1'' @ [newline] @ ''PUT b 2'' @ [newline] @ ''CLEAR junk'' @ [newline])))))) = []
   \<and> lru_list (fst (snd (recover (KVStore 2 ''wal''
         (disk_with (''PUT a 1'' @ [newline] @ ''PUT b 2'' @ [newline])))))) = [''b'', ''a'']"
  by (simp add: malformed_def record_layout_def disk_with_def eval_defs replay_defs
                Mapping.size_def lookup_update')

text \<open>
  C6, amended. \<^verbatim>\<open>recover\<close> returns false exactly when the path is empty or the file cannot be
  opened for reading, and then the store and the file system are as before. Otherwise it
  returns true, whatever the file holds. A line with no token, with a first token other
  than \<^verbatim>\<open>PUT\<close>, \<^verbatim>\<open>DEL\<close> and \<^verbatim>\<open>CLEAR\<close>, or with \<^verbatim>\<open>PUT\<close> or \<^verbatim>\<open>DEL\<close> and no second token is
  malformed and is skipped on its own: the result is the replay of the other lines. Every
  other line is applied as the operation its first token names, with the second token as the
  key, whatever else the line holds.
\<close>

theorem recover_result:
  "(\<not> fst (recover (s, fs)) \<longleftrightarrow> wal_path s = [] \<or> open_read (wal_path s) fs = None)
   \<and> (\<not> fst (recover (s, fs)) \<longrightarrow> snd (recover (s, fs)) = (s, fs))
   \<and> (wal_path s \<noteq> [] \<and> open_read (wal_path s) fs = Some log \<longrightarrow>
        recover (s, fs) =
          (True, (fst (replay (filter (\<lambda>l. \<not> unreadable l) (getlines log)) (s\<lparr>wal_file := False\<rparr>, fs)))
                    \<lparr>wal_file := wal_file s\<rparr>,
                 snd (replay (filter (\<lambda>l. \<not> unreadable l) (getlines log)) (s\<lparr>wal_file := False\<rparr>, fs))))
   \<and> (unreadable l \<longrightarrow> malformed l \<and> replay_line l w = w)
   \<and> (tokens l = ''PUT'' # k # rest \<longrightarrow> (\<exists>v. replay_line l w = snd (put k v w)))
   \<and> (tokens l = ''DEL'' # k # rest \<longrightarrow> replay_line l w = snd (del k w))
   \<and> (tokens l = ''CLEAR'' # rest \<longrightarrow> replay_line l w = clear w)"
proof -
  have ret: "(\<not> fst (recover (s, fs)) \<longleftrightarrow> wal_path s = [] \<or> open_read (wal_path s) fs = None)
   \<and> (\<not> fst (recover (s, fs)) \<longrightarrow> snd (recover (s, fs)) = (s, fs))
   \<and> (wal_path s \<noteq> [] \<and> open_read (wal_path s) fs = Some log \<longrightarrow>
        recover (s, fs) =
          (True, (fst (replay (filter (\<lambda>l. \<not> unreadable l) (getlines log)) (s\<lparr>wal_file := False\<rparr>, fs)))
                    \<lparr>wal_file := wal_file s\<rparr>,
                 snd (replay (filter (\<lambda>l. \<not> unreadable l) (getlines log)) (s\<lparr>wal_file := False\<rparr>, fs))))"
  proof (cases "wal_path s = [] \<or> open_read (wal_path s) fs = None")
    case True
    then show ?thesis by (auto simp: recover_fail)
  next
    case False
    then obtain l' where l': "open_read (wal_path s) fs = Some l'" by auto
    with False show ?thesis
      using replay_skips_unreadable [of "getlines l'" "(s\<lparr>wal_file := False\<rparr>, fs)"]
      by (auto simp: recover_success)
  qed
  have skip: "unreadable l \<longrightarrow> malformed l \<and> replay_line l w = w"
    using record_readable [of l] by (auto simp: malformed_def replay_line_unreadable)
  have p: "tokens l = ''PUT'' # k # rest \<longrightarrow> (\<exists>v. replay_line l w = snd (put k v w))"
    using replay_line_put_tokens [of l k rest w] by blast
  have d: "tokens l = ''DEL'' # k # rest \<longrightarrow> replay_line l w = snd (del k w)"
    using replay_line_del_tokens [of l k rest w] by blast
  have c: "tokens l = ''CLEAR'' # rest \<longrightarrow> replay_line l w = clear w"
    using replay_line_clear_tokens [of l rest w] by blast
  show ?thesis
    by (rule conjI [OF conjunct1 [OF ret] conjI [OF conjunct1 [OF conjunct2 [OF ret]]
          conjI [OF conjunct2 [OF conjunct2 [OF ret]] conjI [OF skip conjI [OF p conjI [OF d c]]]]]])
qed

theorem recover_result_witness:
  "\<not> fst (recover (KVStore 2 [] disk3))
   \<and> snd (recover (KVStore 2 [] disk3)) = KVStore 2 [] disk3
   \<and> wal_path (fst (KVStore 2 ''wal'' disk3)) \<noteq> []
   \<and> open_read (wal_path (fst (KVStore 2 ''wal'' disk3))) (snd (KVStore 2 ''wal'' disk3))
        = Some (''PUT a 1'' @ [newline] @ ''PUT'' @ [newline] @ ''BOGUS x'' @ [newline]
                           @ [newline] @ ''DEL'' @ [newline] @ ''PUT b 2'' @ [newline])
   \<and> filter (\<lambda>l. \<not> unreadable l) (getlines (''PUT a 1'' @ [newline] @ ''PUT'' @ [newline] @ ''BOGUS x'' @ [newline]
                           @ [newline] @ ''DEL'' @ [newline] @ ''PUT b 2'' @ [newline])) = [''PUT a 1'', ''PUT b 2'']
   \<and> fst (recover (KVStore 2 ''wal'' disk3))
   \<and> lru_list (fst (snd (recover (KVStore 2 ''wal'' disk3)))) = [''b'', ''a'']
   \<and> unreadable ''BOGUS x'' \<and> malformed ''BOGUS x''
   \<and> replay_line ''BOGUS x'' (KVStore 2 ''wal'' disk1) = KVStore 2 ''wal'' disk1
   \<and> tokens ''PUT k v w'' = ''PUT'' # ''k'' # [''v'', ''w'']
   \<and> (\<exists>v. replay_line ''PUT k v w'' (KVStore 2 ''wal'' disk1) = snd (put ''k'' v (KVStore 2 ''wal'' disk1)))
   \<and> tokens ''DEL a b c'' = ''DEL'' # ''a'' # [''b'', ''c'']
   \<and> replay_line ''DEL a b c'' (KVStore 2 ''wal'' disk1) = snd (del ''a'' (KVStore 2 ''wal'' disk1))
   \<and> tokens ''CLEAR junk'' = ''CLEAR'' # [''junk'']
   \<and> replay_line ''CLEAR junk'' (KVStore 2 ''wal'' disk1) = clear (KVStore 2 ''wal'' disk1)"
proof -
  let ?log = "''PUT a 1'' @ [newline] @ ''PUT'' @ [newline] @ ''BOGUS x'' @ [newline]
                           @ [newline] @ ''DEL'' @ [newline] @ ''PUT b 2'' @ [newline]"
  let ?w = "KVStore 2 ''wal'' disk1"
  obtain s1 fs1 where w1: "KVStore 2 [] disk3 = (s1, fs1)" by (cases "KVStore 2 [] disk3")
  have p1: "wal_path s1 = []" using w1 by (auto simp: KVStore_def)
  from recover_result [of s1 fs1] p1 w1
  have a: "\<not> fst (recover (KVStore 2 [] disk3))" "snd (recover (KVStore 2 [] disk3)) = KVStore 2 [] disk3"
    by simp_all
  obtain s2 fs2 where w2: "KVStore 2 ''wal'' disk3 = (s2, fs2)" by (cases "KVStore 2 ''wal'' disk3")
  have p2: "wal_path s2 \<noteq> []" using w2 by (auto simp: KVStore_def split: prod.splits)
  have o2: "open_read (wal_path s2) fs2 = Some ?log"
    using w2 by (auto simp: KVStore_def open_append_def open_read_def disk3_def)
  have f: "filter (\<lambda>l. \<not> unreadable l) (getlines ?log) = [''PUT a 1'', ''PUT b 2'']"
    by (simp add: getlines_def unreadable_def tokens_def isspace_def newline_def)
  from recover_result [of s2 fs2 ?log] p2 o2
  have r: "recover (s2, fs2) =
          (True, (fst (replay (filter (\<lambda>l. \<not> unreadable l) (getlines ?log)) (s2\<lparr>wal_file := False\<rparr>, fs2)))
                    \<lparr>wal_file := wal_file s2\<rparr>,
                 snd (replay (filter (\<lambda>l. \<not> unreadable l) (getlines ?log)) (s2\<lparr>wal_file := False\<rparr>, fs2)))"
    by blast
  have s2: "s2 = \<lparr>cache = Mapping.empty, lru_list = [], max_capacity = 2, wal_path = ''wal'', wal_file = True\<rparr>"
    using w2 by (auto simp: KVStore_def open_append_def disk3_def)
  have b: "lru_list (fst (snd (recover (s2, fs2)))) = [''b'', ''a'']"
    unfolding r f
    by (simp add: s2 eval_defs replay_line_def read_token_def isspace_def getline_rest_def
                  Mapping.size_def lookup_update')
  have u: "unreadable ''BOGUS x''"
    by (simp add: unreadable_def tokens_def isspace_def)
  from recover_result [of _ _ _ "''BOGUS x''" ?w] u
  have u': "malformed ''BOGUS x''" "replay_line ''BOGUS x'' ?w = ?w"
    by blast+
  have tp: "tokens ''PUT k v w'' = ''PUT'' # ''k'' # [''v'', ''w'']"
    by (simp add: tokens_def isspace_def)
  from recover_result [of _ _ _ "''PUT k v w''" ?w "''k''" "[''v'', ''w'']"] tp
  have tp': "\<exists>v. replay_line ''PUT k v w'' ?w = snd (put ''k'' v ?w)"
    by blast
  have td: "tokens ''DEL a b c'' = ''DEL'' # ''a'' # [''b'', ''c'']"
    by (simp add: tokens_def isspace_def)
  have tc: "tokens ''CLEAR junk'' = ''CLEAR'' # [''junk'']"
    by (simp add: tokens_def isspace_def)
  from recover_result [of _ _ _ "''DEL a b c''" ?w "''a''" "[''b'', ''c'']"] td
  have td': "replay_line ''DEL a b c'' ?w = snd (del ''a'' ?w)"
    by blast
  from recover_result [of _ _ _ "''CLEAR junk''" ?w _ "[''junk'']"] tc
  have tc': "replay_line ''CLEAR junk'' ?w = clear ?w"
    by blast
  from a p2 o2 f r b w2 have first: "\<not> fst (recover (KVStore 2 [] disk3))
   \<and> snd (recover (KVStore 2 [] disk3)) = KVStore 2 [] disk3
   \<and> wal_path (fst (KVStore 2 ''wal'' disk3)) \<noteq> []
   \<and> open_read (wal_path (fst (KVStore 2 ''wal'' disk3))) (snd (KVStore 2 ''wal'' disk3)) = Some ?log
   \<and> filter (\<lambda>l. \<not> unreadable l) (getlines ?log) = [''PUT a 1'', ''PUT b 2'']
   \<and> fst (recover (KVStore 2 ''wal'' disk3))
   \<and> lru_list (fst (snd (recover (KVStore 2 ''wal'' disk3)))) = [''b'', ''a'']"
    by simp
  from first u u' tp tp' td td' tc tc' show ?thesis
    by (intro conjI) (elim conjE, assumption)+
qed

section \<open>Concurrent calls\<close>

text \<open>The three parts, run with no other call in between, are \<^verbatim>\<open>recover\<close>.\<close>

lemma recover_racing_alone: "recover_racing [] w = recover w"
  by (cases w)
     (simp add: recover_racing_def recover_begin_def recover_end_def recover_def case_prod_beta
           split: option.splits)

text \<open>
  C8. \<^verbatim>\<open>recover\<close> does not run under the mutex, and a call of another thread can observe
  its half-done state. A store of capacity 2 is constructed over a log that holds
  \<^verbatim>\<open>PUT a 1\<close>. One thread calls \<^verbatim>\<open>recover\<close>; another calls \<^verbatim>\<open>put("b", "2")\<close> after the output
  stream was taken away. The call returns true and the key is resident, yet the log holds
  no record of it, while in both orders of the two calls one after the other the log ends
  with \<^verbatim>\<open>PUT b 2\<close>: the outcome is that of no sequential order.
\<close>

theorem recover_race_loses_record:
  "fst (recover_racing [Put ''b'' ''2''] (KVStore 2 ''wal'' disk1))
   \<and> Mapping.lookup (cache (fst (snd (recover_racing [Put ''b'' ''2''] (KVStore 2 ''wal'' disk1))))) ''b'' = Some ''2''
   \<and> contents (snd (snd (recover_racing [Put ''b'' ''2''] (KVStore 2 ''wal'' disk1)))) ''wal''
        = Some (''PUT a 1'' @ [newline])
   \<and> contents (snd (run [Recover, Put ''b'' ''2''] (KVStore 2 ''wal'' disk1))) ''wal''
        = Some (''PUT a 1'' @ [newline] @ ''PUT b 2'' @ [newline])
   \<and> contents (snd (run [Put ''b'' ''2'', Recover] (KVStore 2 ''wal'' disk1))) ''wal''
        = Some (''PUT a 1'' @ [newline] @ ''PUT b 2'' @ [newline])"
  by (simp add: recover_racing_def recover_begin_def recover_end_def disk1_def eval_defs replay_defs
                Mapping.size_def lookup_update')

end
